theory Spec2Isabelle
  imports Complex_Main "HOL-Library.AList"
begin

section \<open>The debounce daemon of lint/persist.py\<close>

text \<open>
  The model covers the scheduling part of class \<open>Daemon\<close>: the class-level
  attributes, \<open>start\<close>, \<open>reenter\<close>, \<open>loop\<close>, \<open>hit\<close>, \<open>delay\<close> and \<open>printf\<close>.

  A Python number is the real number it denotes, whether it is an int or a float; a value
  too large for a float can only be an int. Float arithmetic rounds to the nearest double.
  Infinite floats and nan are not numbers of the model.

  Time is the monotonic clock. It advances while \<open>q.get\<close> waits and while
  \<open>time.sleep\<close> sleeps, and by the time that has passed before each call of
  \<open>time.monotonic()\<close> (which covers the time the callback has taken); these times come
  with the input of each iteration.
\<close>

subsection \<open>Floats\<close>

text \<open>\<open>binade n a\<close> is the exponent \<open>e\<close> with \<open>2 ^ e \<le> a < 2 ^ (e + 1)\<close>, found in at most
  \<open>n\<close> steps.\<close>

fun binade :: "nat \<Rightarrow> real \<Rightarrow> int" where
  "binade 0 a = 0"
| "binade (Suc n) a =
     (if a < 1 then binade n (2 * a) - 1 else if 2 \<le> a then binade n (a / 2) + 1 else 0)"

definition round_half_even :: "real \<Rightarrow> int" where
  "round_half_even y =
     (let f = \<lfloor>y\<rfloor> in
      if y - of_int f < 1 / 2 then f
      else if 1 / 2 < y - of_int f then f + 1
      else if even f then f else f + 1)"

text \<open>The exponent of the last bit of the doubles around \<open>x\<close>: 53 bits of precision,
  and \<open>- 1074\<close> in the subnormal range.\<close>

definition ulp_exponent :: "real \<Rightarrow> int" where
  "ulp_exponent x = max (binade 1100 \<bar>x\<bar>) (- 1022) - 52"

text \<open>The double nearest to \<open>x\<close>, ties to even, for \<open>x\<close> in the range of the doubles.\<close>

definition round_double :: "real \<Rightarrow> real" where
  "round_double x =
     (if x = 0 then 0
      else if 0 \<le> ulp_exponent x
        then of_int (round_half_even (x / 2 ^ nat (ulp_exponent x))) * 2 ^ nat (ulp_exponent x)
        else of_int (round_half_even (x * 2 ^ nat (- ulp_exponent x))) / 2 ^ nat (- ulp_exponent x))"

text \<open>From this magnitude on, a number rounds beyond the largest double.\<close>

definition DBL_OVERFLOW :: real where
  "DBL_OVERFLOW = 2 ^ 1024 - 2 ^ 970"

datatype exn =
    ValueError
  | KeyError
  | OverflowError
  | CallbackError string

text \<open>The conversion of a number to a float: a float is left as it is, an int is rounded,
  and an int that is too large raises.\<close>

definition to_float :: "real \<Rightarrow> exn + real" where
  "to_float x = (if DBL_OVERFLOW \<le> \<bar>x\<bar> then Inl OverflowError else Inr (round_double x))"

text \<open>\<open>x + y\<close> and \<open>x / y\<close> for a number \<open>x\<close> and a float \<open>y\<close>. (In their two uses, adding
  \<open>MIN_DELAY\<close> and dividing by \<open>1000.0\<close>, the result is in the range of the doubles.)\<close>

definition float_add :: "real \<Rightarrow> real \<Rightarrow> exn + real" where
  "float_add x y = (case to_float x of Inl e \<Rightarrow> Inl e | Inr x' \<Rightarrow> Inr (round_double (x' + y)))"

definition float_div :: "real \<Rightarrow> real \<Rightarrow> exn + real" where
  "float_div x y = (case to_float x of Inl e \<Rightarrow> Inl e | Inr x' \<Rightarrow> Inr (round_double (x' / y)))"

subsection \<open>Queue items\<close>

text \<open>
  The queue carries arbitrary Python values and \<open>loop\<close> dispatches on their type.
  A tuple is a list of numbers (the pair that \<open>hit\<close> builds is \<open>(view.id(), time.monotonic())\<close>;
  numbers are compared by value, as Python compares and hashes int, float and bool);
  \<open>Number\<close> is an int or a float; \<open>Str\<close> a string; \<open>Other\<close> any other object,
  given by its printed form.
\<close>

type_synonym view_id = real

datatype item =
    Tuple "real list"
  | Number real
  | Str string
  | Other string

text \<open>
  What \<open>q.get(block=True, timeout=MIN_DELAY)\<close> does after waiting for some time: it returns
  an item, or raises \<open>Empty\<close>. The list holds the times that pass during the rest of the
  iteration: before each call of \<open>time.monotonic()\<close> in turn, or, when the item makes the
  loop sleep, the time by which \<open>time.sleep\<close> returns late. A list that is too short stands
  for no time passing.
\<close>

datatype input =
    Got real item "real list"
  | Empty real "real list"

subsection \<open>Observable effects\<close>

datatype arg =
    Text string
  | Repr item
  | Traceback exn

text \<open>The effects of the loop: a call of the callback, a line printed by \<open>printf\<close>
  (the arguments after the prefix \<open>SublimeLinter: \<close>), a call of \<open>time.sleep\<close>.\<close>

datatype obs =
    Callback view_id real
  | Printf "arg list"
  | Sleep real

text \<open>The callback given to \<open>start\<close>: it returns or raises.\<close>

type_synonym callback = "view_id \<Rightarrow> real \<Rightarrow> exn option"

text \<open>What the loop runs with: the callback, and the longest time that \<open>time.sleep\<close> of the
  platform accepts (it raises for a longer one).\<close>

record env =
  callback :: callback
  sleep_max :: real

subsection \<open>The state of the loop\<close>

text \<open>
  \<open>self_last_runs\<close> is \<open>self.last_runs\<close>, the dict of the class;
  \<open>last_runs\<close> is the local dict of \<open>loop\<close> (the pending requests), in insertion order;
  \<open>trace\<close> holds the effects so far, each with the clock as it was when the effect began
  (for a callback: the reading of \<open>time.monotonic()\<close> just before the call).
\<close>

record loop_state =
  self_last_runs :: "view_id \<rightharpoonup> real"
  last_runs :: "(view_id \<times> real) list"
  clock :: real
  trace :: "(real \<times> obs) list"

text \<open>\<open>MIN_DELAY = 0.1\<close>: the double nearest to one tenth.\<close>

definition MIN_DELAY :: real where
  "MIN_DELAY = round_double (1 / 10)"

definition init :: "real \<Rightarrow> loop_state" where
  "init t0 = \<lparr>self_last_runs = Map.empty, last_runs = [], clock = t0, trace = []\<rparr>"

definition printf :: "arg list \<Rightarrow> loop_state \<Rightarrow> loop_state" where
  "printf args s = s\<lparr>trace := trace s @ [(clock s, Printf args)]\<rparr>"

definition reenter :: "env \<Rightarrow> view_id \<Rightarrow> real \<Rightarrow> loop_state \<Rightarrow> loop_state \<times> exn option" where
  "reenter e view_id timestamp s =
     (s\<lparr>trace := trace s @ [(clock s, Callback view_id timestamp)]\<rparr>, callback e view_id timestamp)"

text \<open>The time that passes next, and the times after it.\<close>

fun elapse :: "real list \<Rightarrow> real \<times> real list" where
  "elapse [] = (0, [])"
| "elapse (d # ds) = (d, ds)"

text \<open>\<open>time.monotonic()\<close>: the reading is the clock of the state returned.\<close>

definition monotonic :: "real list \<Rightarrow> loop_state \<Rightarrow> real list \<times> loop_state" where
  "monotonic ds s = (snd (elapse ds), s\<lparr>clock := clock s + fst (elapse ds)\<rparr>)"

text \<open>The body of the \<open>for\<close> loop in the \<open>except Empty\<close> branch, for one entry of the copy.\<close>

definition loop_sweep_entry ::
  "env \<Rightarrow> real list \<Rightarrow> view_id \<Rightarrow> real \<Rightarrow> loop_state \<Rightarrow> (real list \<times> loop_state) \<times> exn option" where
  "loop_sweep_entry e ds view_id timestamp s =
     (let (ds1, s1) = monotonic ds s in
      case float_add timestamp MIN_DELAY of
        Inl x \<Rightarrow> ((ds1, s1), Some x)
      | Inr deadline \<Rightarrow>
          if clock s1 > deadline then
            (let (ds2, s2) = monotonic ds1 s1;
                 s3 = s2\<lparr>self_last_runs := (self_last_runs s2)(view_id \<mapsto> clock s2)\<rparr> in
             if map_of (last_runs s3) view_id = None then ((ds2, s3), Some KeyError)
             else
               (let s4 = s3\<lparr>last_runs := AList.delete view_id (last_runs s3)\<rparr>;
                    (s5, r) = reenter e view_id timestamp s4
                in ((ds2, s5), r)))
          else ((ds1, s1), None))"

text \<open>The \<open>for\<close> loop over \<open>last_runs.copy().items()\<close>.
  An exception leaves the loop at once, with the state as it is then.\<close>

fun loop_sweep :: "env \<Rightarrow> real list \<Rightarrow> (view_id \<times> real) list \<Rightarrow> loop_state \<Rightarrow> loop_state \<times> exn option" where
  "loop_sweep e ds [] s = (s, None)"
| "loop_sweep e ds ((view_id, timestamp) # items) s =
     (case loop_sweep_entry e ds view_id timestamp s of
        ((ds', s'), Some x) \<Rightarrow> (s', Some x)
      | ((ds', s'), None) \<Rightarrow> loop_sweep e ds' items s')"

text \<open>The type dispatch on a received item. \<open>time.sleep\<close> converts its argument to a float,
  raises for a negative one and for one that the platform does not accept, and returns
  after the time asked for or later (a sleep that a signal cuts short is not a behaviour of
  the model).\<close>

fun loop_item :: "env \<Rightarrow> real list \<Rightarrow> loop_state \<Rightarrow> item \<Rightarrow> loop_state \<times> exn option" where
  "loop_item e ds s (Tuple [view_id, timestamp]) =
     (if view_id \<in> dom (self_last_runs s) \<and> timestamp < the (self_last_runs s view_id)
      then (s, None)
      else (s\<lparr>last_runs := AList.update view_id timestamp (last_runs s)\<rparr>, None))"
| "loop_item e ds s (Tuple xs) = (s, Some ValueError)"
| "loop_item e ds s (Number n) =
     (case to_float n of
        Inl x \<Rightarrow> (s, Some x)
      | Inr d \<Rightarrow>
          if d < 0 then (s, Some ValueError)
          else if sleep_max e < d then (s, Some OverflowError)
          else (s\<lparr>clock := clock s + d + fst (elapse ds),
                  trace := trace s @ [(clock s, Sleep d)]\<rparr>, None))"
| "loop_item e ds s (Str str) =
     (if str = ''reload'' then (printf [Text ''daemon detected a reload''] s, None)
      else (s, None))"
| "loop_item e ds s (Other x) =
     (printf [Text ''unknown message sent to daemon:'', Repr (Other x)] s, None)"

text \<open>The body of the outer \<open>try\<close>.\<close>

fun loop_try :: "env \<Rightarrow> loop_state \<Rightarrow> input \<Rightarrow> loop_state \<times> exn option" where
  "loop_try e s (Empty w ds) =
     (let s0 = s\<lparr>clock := clock s + w\<rparr> in loop_sweep e ds (last_runs s0) s0)"
| "loop_try e s (Got w i ds) = loop_item e ds (s\<lparr>clock := clock s + w\<rparr>) i"

text \<open>One iteration of \<open>while True\<close>: the \<open>try\<close> with its bare \<open>except\<close>.\<close>

definition loop_body :: "env \<Rightarrow> loop_state \<Rightarrow> input \<Rightarrow> loop_state" where
  "loop_body e s i =
     (case loop_try e s i of
        (s', None) \<Rightarrow> s'
      | (s', Some x) \<Rightarrow>
          printf [Text (replicate 20 CHR ''-'')]
            (printf [Traceback x]
              (printf [Text (replicate 20 CHR ''-'')]
                (printf [Text ''error in SublimeLinter daemon:''] s'))))"

text \<open>The loop over the successive outcomes of \<open>q.get\<close>. It has no exit.\<close>

fun loop :: "env \<Rightarrow> input list \<Rightarrow> loop_state \<Rightarrow> loop_state" where
  "loop e [] s = s"
| "loop e (i # ins) s = loop e ins (loop_body e s i)"

text \<open>\<open>q.get\<close> waits for a time that is not negative, and raises \<open>Empty\<close> only when
  the timeout \<open>MIN_DELAY\<close> has passed; the clock does not go back.\<close>

fun well_timed :: "input \<Rightarrow> bool" where
  "well_timed (Got w i ds) = (0 \<le> w \<and> list_all (\<lambda>d. 0 \<le> d) ds)"
| "well_timed (Empty w ds) = (MIN_DELAY \<le> w \<and> list_all (\<lambda>d. 0 \<le> d) ds)"

text \<open>Whether an input is a check request for a given id.\<close>

fun request_for :: "view_id \<Rightarrow> input \<Rightarrow> bool" where
  "request_for v (Got w (Tuple [view_id, timestamp]) ds) = (view_id = v)"
| "request_for v i = False"

text \<open>The effects added to the trace between two states.\<close>

definition emitted :: "loop_state \<Rightarrow> loop_state \<Rightarrow> (real \<times> obs) list" where
  "emitted s s' = drop (length (trace s)) (trace s')"

text \<open>The four lines that the bare \<open>except\<close> prints.\<close>

definition error_lines :: "real \<Rightarrow> exn \<Rightarrow> (real \<times> obs) list" where
  "error_lines now x =
     [(now, Printf [Text ''error in SublimeLinter daemon:'']),
      (now, Printf [Text (replicate 20 CHR ''-'')]),
      (now, Printf [Traceback x]),
      (now, Printf [Text (replicate 20 CHR ''-'')])]"

text \<open>A callback that always returns, and one that always raises; with them, a platform
  whose \<open>time.sleep\<close> accepts up to \<open>2 ^ 63\<close> nanoseconds.\<close>

definition cb_ok :: callback where
  "cb_ok view_id timestamp = None"

definition cb_raise :: callback where
  "cb_raise view_id timestamp = Some (CallbackError ''boom'')"

definition env_ok :: env where
  "env_ok = \<lparr>callback = cb_ok, sleep_max = 9223372036\<rparr>"

definition env_raise :: env where
  "env_raise = \<lparr>callback = cb_raise, sleep_max = 9223372036\<rparr>"

subsection \<open>The class, its instances and the producers\<close>

text \<open>
  \<open>running\<close>, \<open>callback\<close>, \<open>q\<close> and \<open>last_runs\<close> are attributes of the class. Reading
  \<open>self.x\<close> takes the attribute of the instance when it has one and the attribute
  of the class otherwise; the assignment \<open>self.x = v\<close> sets the attribute of the instance.
  Instances are numbered; \<open>threads\<close> lists, for every thread started, the instance
  whose \<open>loop\<close> it runs. \<open>Daemon_last_runs\<close> is the dict that the loop reads and
  writes as \<open>self.last_runs\<close> (the field \<open>self_last_runs\<close> of the state of the loop);
  no producer touches it.
\<close>

record 'cb world =
  Daemon_running :: bool
  Daemon_callback :: "'cb option"
  Daemon_q :: "item list"
  Daemon_last_runs :: "view_id \<rightharpoonup> real"
  self_running :: "nat \<Rightarrow> bool option"
  self_callback :: "nat \<Rightarrow> 'cb option"
  threads :: "nat list"

definition world0 :: "'cb world" where
  "world0 = \<lparr>Daemon_running = False, Daemon_callback = None, Daemon_q = [],
             Daemon_last_runs = Map.empty, self_running = (\<lambda>_. None), self_callback = (\<lambda>_. None), threads = []\<rparr>"

definition get_running :: "'cb world \<Rightarrow> nat \<Rightarrow> bool" where
  "get_running w self = (case self_running w self of Some b \<Rightarrow> b | None \<Rightarrow> Daemon_running w)"

definition get_callback :: "'cb world \<Rightarrow> nat \<Rightarrow> 'cb option" where
  "get_callback w self = (case self_callback w self of Some c \<Rightarrow> Some c | None \<Rightarrow> Daemon_callback w)"

definition start :: "nat \<Rightarrow> 'cb \<Rightarrow> 'cb world \<Rightarrow> 'cb world" where
  "start self cb w =
     (let w1 = w\<lparr>self_callback := (self_callback w)(self := Some cb)\<rparr> in
      if get_running w1 self then w1\<lparr>Daemon_q := Daemon_q w1 @ [Str ''reload'']\<rparr>
      else w1\<lparr>self_running := (self_running w1)(self := Some True),
               threads := threads w1 @ [self]\<rparr>)"

text \<open>\<open>hit\<close> is given the reading of \<open>time.monotonic()\<close> and the id of the view.\<close>

definition hit :: "nat \<Rightarrow> real \<Rightarrow> view_id \<Rightarrow> 'cb world \<Rightarrow> real \<times> 'cb world" where
  "hit self now view w = (now, w\<lparr>Daemon_q := Daemon_q w @ [Tuple [view, now]]\<rparr>)"

text \<open>\<open>delay\<close>: the division \<open>milliseconds / 1000.0\<close> raises for an int that is too large
  for a float, and then nothing is put on the queue.\<close>

definition delay :: "nat \<Rightarrow> real \<Rightarrow> 'cb world \<Rightarrow> exn + 'cb world" where
  "delay self milliseconds w =
     (case float_div milliseconds 1000 of
        Inl x \<Rightarrow> Inl x
      | Inr d \<Rightarrow> Inr (w\<lparr>Daemon_q := Daemon_q w @ [Number d]\<rparr>))"

fun starts :: "nat \<Rightarrow> 'cb list \<Rightarrow> 'cb world \<Rightarrow> 'cb world" where
  "starts self [] w = w"
| "starts self (cb # cbs) w = starts self cbs (start self cb w)"

section \<open>Properties\<close>

subsection \<open>Evaluating floats\<close>

lemma binade_numeral:
  "binade (numeral k) a =
     (if a < 1 then binade (pred_numeral k) (2 * a) - 1
      else if 2 \<le> a then binade (pred_numeral k) (a / 2) + 1 else 0)"
  by (simp add: numeral_eq_Suc)

lemmas float_eval =
  round_double_def ulp_exponent_def binade_numeral round_half_even_def Let_def
  to_float_def float_add_def float_div_def DBL_OVERFLOW_def

lemma MIN_DELAY_value: "MIN_DELAY = 3602879701896397 / 36028797018963968"
  by (simp add: MIN_DELAY_def float_eval)


subsection \<open>Traces\<close>

lemma emitted_append: "trace s' = trace s @ es \<Longrightarrow> emitted s s' = es"
  by (simp add: emitted_def)

lemma emitted_same [simp]: "emitted s s = []"
  by (simp add: emitted_def)

lemma emitted_trans:
  "trace b = trace a @ x \<Longrightarrow> trace c = trace b @ y \<Longrightarrow> emitted a c = emitted a b @ emitted b c"
  by (simp add: emitted_def)

subsection \<open>One entry of a sweep\<close>

text \<open>The four ways an entry can go: the deadline cannot be computed, the entry is not due,
  its key is missing, it is dispatched.\<close>

lemma loop_sweep_entry_cases:
  obtains
    (overflow) x where "float_add t MIN_DELAY = Inl x"
      and "loop_sweep_entry e ds v t s =
             ((snd (elapse ds), s\<lparr>clock := clock s + fst (elapse ds)\<rparr>), Some x)"
  | (wait) D where "float_add t MIN_DELAY = Inr D" and "clock s + fst (elapse ds) \<le> D"
      and "loop_sweep_entry e ds v t s =
             ((snd (elapse ds), s\<lparr>clock := clock s + fst (elapse ds)\<rparr>), None)"
  | (missing) D where "float_add t MIN_DELAY = Inr D" and "D < clock s + fst (elapse ds)"
      and "map_of (last_runs s) v = None"
      and "loop_sweep_entry e ds v t s =
             ((snd (elapse (snd (elapse ds))),
               s\<lparr>clock := clock s + fst (elapse ds) + fst (elapse (snd (elapse ds))),
                 self_last_runs := (self_last_runs s)
                   (v \<mapsto> clock s + fst (elapse ds) + fst (elapse (snd (elapse ds))))\<rparr>),
              Some KeyError)"
  | (dispatch) D where "float_add t MIN_DELAY = Inr D" and "D < clock s + fst (elapse ds)"
      and "map_of (last_runs s) v \<noteq> None"
      and "loop_sweep_entry e ds v t s =
             ((snd (elapse (snd (elapse ds))),
               s\<lparr>clock := clock s + fst (elapse ds) + fst (elapse (snd (elapse ds))),
                 self_last_runs := (self_last_runs s)
                   (v \<mapsto> clock s + fst (elapse ds) + fst (elapse (snd (elapse ds)))),
                 last_runs := AList.delete v (last_runs s),
                 trace := trace s @
                   [(clock s + fst (elapse ds) + fst (elapse (snd (elapse ds))), Callback v t)]\<rparr>),
              callback e v t)"
proof (cases "float_add t MIN_DELAY")
  case (Inl x)
  then show ?thesis
    by (intro overflow [of x]) (simp_all add: loop_sweep_entry_def monotonic_def)
next
  case (Inr D)
  show ?thesis
  proof (cases "D < clock s + fst (elapse ds)")
    case False
    with Inr show ?thesis
      by (intro wait [of D]) (simp_all add: loop_sweep_entry_def monotonic_def)
  next
    case True
    show ?thesis
    proof (cases "map_of (last_runs s) v = None")
      case None: True
      with Inr \<open>D < clock s + fst (elapse ds)\<close> show ?thesis
        by (intro missing [of D]) (simp_all add: loop_sweep_entry_def monotonic_def Let_def)
    next
      case False
      with Inr \<open>D < clock s + fst (elapse ds)\<close> show ?thesis
        by (intro dispatch [of D]) (auto simp: loop_sweep_entry_def monotonic_def Let_def reenter_def)
    qed
  qed
qed

lemma elapse_nonneg:
  "list_all (\<lambda>d. 0 \<le> d) ds \<Longrightarrow> 0 \<le> fst (elapse ds) \<and> list_all (\<lambda>d. 0 \<le> d) (snd (elapse ds))"
  by (cases ds) auto


lemma entry_trace:
  assumes "loop_sweep_entry e ds v t s = ((ds', s'), r)"
  shows "trace s' = trace s @ emitted s s'"
    and "emitted s s' = [] \<or> emitted s s' = [(clock s', Callback v t)]"
proof -
  have "\<exists>es. trace s' = trace s @ es \<and> (es = [] \<or> es = [(clock s', Callback v t)])"
    using assms by (cases rule: loop_sweep_entry_cases [of t e ds v s]) auto
  then obtain es where es: "trace s' = trace s @ es" "es = [] \<or> es = [(clock s', Callback v t)]"
    by blast
  from emitted_append [OF es(1)] es
  show "trace s' = trace s @ emitted s s'"
    and "emitted s s' = [] \<or> emitted s s' = [(clock s', Callback v t)]"
    by simp_all
qed

lemma entry_nonneg:
  assumes "loop_sweep_entry e ds v t s = ((ds', s'), r)" and "list_all (\<lambda>d. 0 \<le> d) ds"
  shows "list_all (\<lambda>d. 0 \<le> d) ds'" and "clock s \<le> clock s'"
proof -
  note a = elapse_nonneg [OF assms(2)]
  note b = elapse_nonneg [of "snd (elapse ds)"]
  show "list_all (\<lambda>d. 0 \<le> d) ds'" and "clock s \<le> clock s'"
    using assms(1) a b by (cases rule: loop_sweep_entry_cases [of t e ds v s]; auto)+
qed

lemma entry_frame:
  assumes "loop_sweep_entry e ds v t s = ((ds', s'), r)" and "v0 \<noteq> v"
  shows "self_last_runs s' v0 = self_last_runs s v0"
    and "map_of (last_runs s') v0 = map_of (last_runs s) v0"
  using assms
  by (cases rule: loop_sweep_entry_cases [of t e ds v s]; auto simp: AList.delete_conv')+

lemma entry_dispatch:
  assumes "loop_sweep_entry e ds v t s = ((ds', s'), r)"
    and "(T, Callback v0 t0) \<in> set (emitted s s')"
  shows "v0 = v" and "t0 = t" and "T = clock s'"
    and "self_last_runs s' v = Some T" and "map_of (last_runs s') v = None"
    and "r = callback e v t"
    and "last_runs s' = AList.delete v (last_runs s)"
    and "\<exists>D. float_add t MIN_DELAY = Inr D \<and> D < clock s + fst (elapse ds)"
  using assms
  by (cases rule: loop_sweep_entry_cases [of t e ds v s];
      auto simp: emitted_def AList.delete_conv')+

lemma entry_complete:
  assumes "loop_sweep_entry e ds v t s = ((ds', s'), r)"
    and "float_add t MIN_DELAY = Inr D" and "D < clock s" and "list_all (\<lambda>d. 0 \<le> d) ds"
    and "map_of (last_runs s) v \<noteq> None"
  shows "emitted s s' = [(clock s', Callback v t)]"
proof -
  note a = elapse_nonneg [OF assms(4)]
  show ?thesis
    using assms(1,2,3,5) a
    by (cases rule: loop_sweep_entry_cases [of t e ds v s]; auto simp: emitted_def)
qed

lemma entry_raise:
  assumes "loop_sweep_entry e ds v t s = ((ds', s'), Some x)"
  shows "float_add t MIN_DELAY = Inl x \<or> map_of (last_runs s) v = None
       \<or> (callback e v t = Some x \<and> emitted s s' = [(clock s', Callback v t)])"
  using assms
  by (cases rule: loop_sweep_entry_cases [of t e ds v s]; auto simp: emitted_def)

subsection \<open>The sweep\<close>

text \<open>An induction rule that follows the \<open>for\<close> loop: it ends at the end of the list or at
  the first entry that raises.\<close>

lemma loop_sweep_induct [case_names Nil Raise Next]:
  assumes "\<And>ds s. P ds [] s"
    and "\<And>ds v t items s ds' s' x.
           loop_sweep_entry e ds v t s = ((ds', s'), Some x) \<Longrightarrow>
           loop_sweep e ds ((v, t) # items) s = (s', Some x) \<Longrightarrow> P ds ((v, t) # items) s"
    and "\<And>ds v t items s ds' s'.
           loop_sweep_entry e ds v t s = ((ds', s'), None) \<Longrightarrow>
           loop_sweep e ds ((v, t) # items) s = loop_sweep e ds' items s' \<Longrightarrow>
           P ds' items s' \<Longrightarrow> P ds ((v, t) # items) s"
  shows "P ds items s"
proof -
  have "\<forall>ds s. P ds items s"
  proof (induction items)
    case Nil
    show ?case using assms(1) by blast
  next
    case (Cons p items)
    show ?case
    proof (intro allI)
      fix ds s
      obtain v t where p: "p = (v, t)" by (cases p)
      obtain ds' s' r where en: "loop_sweep_entry e ds v t s = ((ds', s'), r)"
        by (cases "loop_sweep_entry e ds v t s") auto
      show "P ds (p # items) s"
      proof (cases r)
        case None
        have eq: "loop_sweep e ds ((v, t) # items) s = loop_sweep e ds' items s'"
          using en None by simp
        have "P ds' items s'" using Cons.IH by blast
        from assms(3) [OF en [unfolded None] eq this] p show ?thesis by simp
      next
        case (Some x)
        have eq: "loop_sweep e ds ((v, t) # items) s = (s', Some x)"
          using en Some by simp
        from assms(2) [OF en [unfolded Some] eq] p show ?thesis by simp
      qed
    qed
  qed
  then show ?thesis by blast
qed

lemma sweep_trace:
  "trace (fst (loop_sweep e ds items s)) = trace s @ emitted s (fst (loop_sweep e ds items s))"
proof (induction ds items s rule: loop_sweep_induct [where e = e])
  case (Nil ds s)
  show ?case by simp
next
  case (Raise ds v t items s ds' s' x)
  then show ?case using entry_trace(1) [OF Raise(1)] by simp
next
  case (Next ds v t items s ds' s')
  let ?R = "fst (loop_sweep e ds' items s')"
  have "emitted s ?R = emitted s s' @ emitted s' ?R"
    by (rule emitted_trans [OF entry_trace(1) [OF Next(1)] Next(3)])
  moreover have "trace ?R = trace s @ emitted s s' @ emitted s' ?R"
    using entry_trace(1) [OF Next(1)] Next(3) by simp
  ultimately show ?case unfolding Next(2) by simp
qed

lemma sweep_emitted_Next:
  assumes "loop_sweep_entry e ds v t s = ((ds', s'), None)"
  shows "emitted s (fst (loop_sweep e ds' items s')) =
           emitted s s' @ emitted s' (fst (loop_sweep e ds' items s'))"
  by (rule emitted_trans [OF entry_trace(1) [OF assms] sweep_trace])

lemma sweep_clock:
  "list_all (\<lambda>d. 0 \<le> d) ds \<Longrightarrow> clock s \<le> clock (fst (loop_sweep e ds items s))"
proof (induction ds items s rule: loop_sweep_induct [where e = e])
  case (Nil ds s)
  show ?case by simp
next
  case (Raise ds v t items s ds' s' x)
  then show ?case using entry_nonneg(2) [OF Raise(1)] by simp
next
  case (Next ds v t items s ds' s')
  from entry_nonneg [OF Next(1) Next(4)] Next(3) show ?case unfolding Next(2) by simp
qed

lemma sweep_stamps:
  "list_all (\<lambda>d. 0 \<le> d) ds \<Longrightarrow> ev \<in> set (emitted s (fst (loop_sweep e ds items s))) \<Longrightarrow>
   clock s \<le> fst ev \<and> (\<exists>v t. snd ev = Callback v t)"
proof (induction ds items s rule: loop_sweep_induct [where e = e])
  case (Nil ds s)
  then show ?case by simp
next
  case (Raise ds v t items s ds' s' x)
  from entry_trace(2) [OF Raise(1)] entry_nonneg(2) [OF Raise(1,3)] Raise(4)
  show ?case unfolding Raise(2) by auto
next
  case (Next ds v t items s ds' s')
  note n = entry_nonneg [OF Next(1) Next(4)]
  from Next(5) consider "ev \<in> set (emitted s s')"
    | "ev \<in> set (emitted s' (fst (loop_sweep e ds' items s')))"
    unfolding Next(2) sweep_emitted_Next [OF Next(1)] by auto
  then show ?case
  proof cases
    case 1
    with entry_trace(2) [OF Next(1)] n(2) show ?thesis by auto
  next
    case 2
    from Next(3) [OF n(1) 2] n(2) show ?thesis by auto
  qed
qed

lemma sweep_frame:
  "v0 \<notin> fst ` set items \<Longrightarrow>
   self_last_runs (fst (loop_sweep e ds items s)) v0 = self_last_runs s v0
   \<and> map_of (last_runs (fst (loop_sweep e ds items s))) v0 = map_of (last_runs s) v0
   \<and> (\<forall>T t0. (T, Callback v0 t0) \<notin> set (emitted s (fst (loop_sweep e ds items s))))"
proof (induction ds items s rule: loop_sweep_induct [where e = e])
  case (Nil ds s)
  show ?case by simp
next
  case (Raise ds v t items s ds' s' x)
  then have ne: "v0 \<noteq> v" by auto
  from entry_frame [OF Raise(1) ne] entry_dispatch(1) [OF Raise(1)] ne
  show ?case unfolding Raise(2) by auto
next
  case (Next ds v t items s ds' s')
  then have ne: "v0 \<noteq> v" and rest: "v0 \<notin> fst ` set items" by auto
  from entry_frame [OF Next(1) ne] entry_dispatch(1) [OF Next(1)] ne Next(3) [OF rest]
  show ?case unfolding Next(2) sweep_emitted_Next [OF Next(1)] by auto
qed

lemma sweep_sound:
  "distinct (map fst items) \<Longrightarrow> (T, Callback v0 t0) \<in> set (emitted s (fst (loop_sweep e ds items s))) \<Longrightarrow>
   (v0, t0) \<in> set items
   \<and> self_last_runs (fst (loop_sweep e ds items s)) v0 = Some T
   \<and> map_of (last_runs (fst (loop_sweep e ds items s))) v0 = None"
proof (induction ds items s rule: loop_sweep_induct [where e = e])
  case (Nil ds s)
  then show ?case by simp
next
  case (Raise ds v t items s ds' s' x)
  from Raise(4) have "(T, Callback v0 t0) \<in> set (emitted s s')" unfolding Raise(2) by simp
  from entry_dispatch(1-5) [OF Raise(1) this] show ?case unfolding Raise(2) by simp
next
  case (Next ds v t items s ds' s')
  from Next(4) have d: "distinct (map fst items)" and nv: "v \<notin> fst ` set items" by auto
  from Next(5) consider (here) "(T, Callback v0 t0) \<in> set (emitted s s')"
    | (later) "(T, Callback v0 t0) \<in> set (emitted s' (fst (loop_sweep e ds' items s')))"
    unfolding Next(2) sweep_emitted_Next [OF Next(1)] by auto
  then show ?case
  proof cases
    case here
    note h = entry_dispatch(1-5) [OF Next(1) here]
    from sweep_frame [OF nv, of e ds' s'] h show ?thesis unfolding Next(2) by simp
  next
    case later
    from Next(3) [OF d later] show ?thesis unfolding Next(2) by simp
  qed
qed

lemma entry_due:
  assumes "loop_sweep_entry e ds v t s = ((ds', s'), r)" and "list_all (\<lambda>d. 0 \<le> d) ds"
    and "(T, Callback v0 t0) \<in> set (emitted s s')"
  shows "\<exists>D. float_add t0 MIN_DELAY = Inr D \<and> D < T"
proof -
  note h = entry_dispatch [OF assms(1,3)]
  from h(8) obtain D where D: "float_add t MIN_DELAY = Inr D" "D < clock s + fst (elapse ds)" by blast
  have "clock s + fst (elapse ds) \<le> clock s'"
    using assms(1) elapse_nonneg [of "snd (elapse ds)"] elapse_nonneg [OF assms(2)] D
    by (cases rule: loop_sweep_entry_cases [of t e ds v s]; auto)
  with D h(2,3) show ?thesis by auto
qed

lemma sweep_due:
  "list_all (\<lambda>d. 0 \<le> d) ds \<Longrightarrow> (T, Callback v0 t0) \<in> set (emitted s (fst (loop_sweep e ds items s))) \<Longrightarrow>
   \<exists>D. float_add t0 MIN_DELAY = Inr D \<and> D < T"
proof (induction ds items s rule: loop_sweep_induct [where e = e])
  case (Nil ds s)
  then show ?case by simp
next
  case (Raise ds v t items s ds' s' x)
  from Raise(4) have "(T, Callback v0 t0) \<in> set (emitted s s')" unfolding Raise(2) by simp
  from entry_due [OF Raise(1,3) this] show ?case .
next
  case (Next ds v t items s ds' s')
  from Next(5) consider (here) "(T, Callback v0 t0) \<in> set (emitted s s')"
    | (later) "(T, Callback v0 t0) \<in> set (emitted s' (fst (loop_sweep e ds' items s')))"
    unfolding Next(2) sweep_emitted_Next [OF Next(1)] by auto
  then show ?case
  proof cases
    case here
    from entry_due [OF Next(1,4) here] show ?thesis .
  next
    case later
    from Next(3) [OF entry_nonneg(1) [OF Next(1) Next(4)] later] show ?thesis .
  qed
qed

lemma sweep_stamp_upper:
  "list_all (\<lambda>d. 0 \<le> d) ds \<Longrightarrow> ev \<in> set (emitted s (fst (loop_sweep e ds items s))) \<Longrightarrow>
   fst ev \<le> clock (fst (loop_sweep e ds items s))"
proof (induction ds items s rule: loop_sweep_induct [where e = e])
  case (Nil ds s)
  then show ?case by simp
next
  case (Raise ds v t items s ds' s' x)
  from entry_trace(2) [OF Raise(1)] Raise(4) show ?case unfolding Raise(2) by auto
next
  case (Next ds v t items s ds' s')
  note n = entry_nonneg [OF Next(1) Next(4)]
  from Next(5) consider "ev \<in> set (emitted s s')"
    | "ev \<in> set (emitted s' (fst (loop_sweep e ds' items s')))"
    unfolding Next(2) sweep_emitted_Next [OF Next(1)] by auto
  then show ?case
  proof cases
    case 1
    with entry_trace(2) [OF Next(1)] sweep_clock [OF n(1), of s' e items]
    show ?thesis unfolding Next(2) by auto
  next
    case 2
    from Next(3) [OF n(1) 2] show ?thesis unfolding Next(2) .
  qed
qed

lemma entry_pending:
  assumes "loop_sweep_entry e ds v t s = ((ds', s'), r)"
  shows "last_runs s' = last_runs s
       \<or> (last_runs s' = AList.delete v (last_runs s) \<and> emitted s s' = [(clock s', Callback v t)])"
  using assms by (cases rule: loop_sweep_entry_cases [of t e ds v s]) (auto simp: emitted_def)


lemma sweep_pending:
  "map_of (last_runs (fst (loop_sweep e ds items s))) v0 = None
   \<or> map_of (last_runs (fst (loop_sweep e ds items s))) v0 = map_of (last_runs s) v0"
proof (induction ds items s rule: loop_sweep_induct [where e = e])
  case (Nil ds s)
  show ?case by simp
next
  case (Raise ds v t items s ds' s' x)
  from entry_pending [OF Raise(1)]
  show ?case unfolding Raise(2) by (auto simp: AList.delete_conv')
next
  case (Next ds v t items s ds' s')
  from entry_pending [OF Next(1)]
  have "map_of (last_runs s') v0 = None \<or> map_of (last_runs s') v0 = map_of (last_runs s) v0"
    by (auto simp: AList.delete_conv')
  with Next(3) show ?case unfolding Next(2) by auto
qed

lemma sweep_distinct:
  "distinct (map fst (last_runs s)) \<Longrightarrow>
   distinct (map fst (last_runs (fst (loop_sweep e ds items s))))"
proof (induction ds items s rule: loop_sweep_induct [where e = e])
  case (Nil ds s)
  then show ?case by simp
next
  case (Raise ds v t items s ds' s' x)
  from entry_pending [OF Raise(1)] Raise(3)
  show ?case unfolding Raise(2) by (auto simp: AList.distinct_delete)
next
  case (Next ds v t items s ds' s')
  from entry_pending [OF Next(1)] Next(4)
  have "distinct (map fst (last_runs s'))" by (auto simp: AList.distinct_delete)
  from Next(3) [OF this] show ?case unfolding Next(2) .
qed

text \<open>An entry that is due when the sweep reaches the head of the list is dispatched, when
  nothing raises for the entries before it.\<close>

lemma sweep_complete:
  assumes "list_all (\<lambda>d. 0 \<le> d) ds"
    and "distinct (map fst (xs @ (v0, t0) # ys))"
    and "\<forall>k \<in> fst ` set (xs @ [(v0, t0)]). map_of (last_runs s) k \<noteq> None"
    and "float_add t0 MIN_DELAY = Inr D" and "D < clock s"
    and "\<forall>p \<in> set xs. float_add (snd p) MIN_DELAY \<noteq> Inl OverflowError"
    and "\<forall>p \<in> set xs. \<forall>T. (T, Callback (fst p) (snd p))
             \<in> set (emitted s (fst (loop_sweep e ds (xs @ (v0, t0) # ys) s)))
           \<longrightarrow> callback e (fst p) (snd p) = None"
  shows "\<exists>T. clock s \<le> T \<and> (T, Callback v0 t0) \<in> set (emitted s (fst (loop_sweep e ds (xs @ (v0, t0) # ys) s)))"
  using assms
proof (induction xs arbitrary: ds s)
  case Nil
  obtain ds' s' r where en: "loop_sweep_entry e ds v0 t0 s = ((ds', s'), r)"
    by (cases "loop_sweep_entry e ds v0 t0 s") auto
  have key: "map_of (last_runs s) v0 \<noteq> None" using Nil.prems(3) by simp
  note ev = entry_complete [OF en Nil.prems(4,5,1) key]
  note n = entry_nonneg [OF en Nil.prems(1)]
  show ?case
  proof (cases r)
    case None
    have "emitted s (fst (loop_sweep e ds' ys s')) = emitted s s' @ emitted s' (fst (loop_sweep e ds' ys s'))"
      using sweep_emitted_Next [OF en [unfolded None]] .
    with ev en None n(2) show ?thesis
      by (intro exI [of _ "clock s'"]) simp
  next
    case (Some x)
    with ev en n(2) show ?thesis
      by (intro exI [of _ "clock s'"]) simp
  qed
next
  case (Cons p xs)
  obtain v t where p: "p = (v, t)" by (cases p)
  obtain ds' s' r where en: "loop_sweep_entry e ds v t s = ((ds', s'), r)"
    by (cases "loop_sweep_entry e ds v t s") auto
  note n = entry_nonneg [OF en Cons.prems(1)]
  have ne: "v0 \<noteq> v" and nx: "\<forall>k \<in> fst ` set (xs @ [(v0, t0)]). k \<noteq> v"
    using Cons.prems(2) p by auto
  have keyv: "map_of (last_runs s) v \<noteq> None" using Cons.prems(3) p by simp
  have nof: "float_add t MIN_DELAY \<noteq> Inl OverflowError" using Cons.prems(6) p by simp
  have r: "r = None"
  proof (cases r)
    case None
    then show ?thesis .
  next
    case (Some x)
    from entry_raise [OF en [unfolded Some]] keyv
    consider "float_add t MIN_DELAY = Inl x"
      | "callback e v t = Some x" "emitted s s' = [(clock s', Callback v t)]"
      by blast
    then show ?thesis
    proof cases
      case 1
      then have "x = OverflowError"
        by (auto simp: float_add_def to_float_def split: sum.splits if_splits)
      with 1 nof show ?thesis by simp
    next
      case 2
      have "(clock s', Callback v t) \<in> set (emitted s (fst (loop_sweep e ds ((p # xs) @ (v0, t0) # ys) s)))"
        using en Some p 2(2) by simp
      with Cons.prems(7) p have "callback e v t = None" by auto
      with 2(1) show ?thesis by simp
    qed
  qed
  have step: "loop_sweep e ds ((p # xs) @ (v0, t0) # ys) s = loop_sweep e ds' (xs @ (v0, t0) # ys) s'"
    using en r p by simp
  have em: "emitted s (fst (loop_sweep e ds' (xs @ (v0, t0) # ys) s')) =
            emitted s s' @ emitted s' (fst (loop_sweep e ds' (xs @ (v0, t0) # ys) s'))"
    using sweep_emitted_Next [OF en [unfolded r]] .
  have d': "distinct (map fst (xs @ (v0, t0) # ys))" using Cons.prems(2) by simp
  have k': "\<forall>k \<in> fst ` set (xs @ [(v0, t0)]). map_of (last_runs s') k \<noteq> None"
  proof
    fix k assume k: "k \<in> fst ` set (xs @ [(v0, t0)])"
    then have "k \<noteq> v" using nx by blast
    from entry_frame(2) [OF en this] Cons.prems(3) k show "map_of (last_runs s') k \<noteq> None" by auto
  qed
  have c': "D < clock s'" using Cons.prems(5) n(2) by simp
  have o': "\<forall>p \<in> set xs. float_add (snd p) MIN_DELAY \<noteq> Inl OverflowError"
    using Cons.prems(6) by simp
  have h': "\<forall>p \<in> set xs. \<forall>T. (T, Callback (fst p) (snd p))
             \<in> set (emitted s' (fst (loop_sweep e ds' (xs @ (v0, t0) # ys) s')))
           \<longrightarrow> callback e (fst p) (snd p) = None"
    using Cons.prems(7) unfolding step em by auto
  from Cons.IH [OF n(1) d' k' Cons.prems(4) c' o' h']
  obtain T where "clock s' \<le> T"
    and "(T, Callback v0 t0) \<in> set (emitted s' (fst (loop_sweep e ds' (xs @ (v0, t0) # ys) s')))"
    by blast
  with n(2) show ?case unfolding step em by (intro exI [of _ T]) auto
qed

subsection \<open>Receiving an item\<close>

lemma tuple_shape:
  "length xs \<noteq> 2 \<Longrightarrow> loop_item e ds s (Tuple xs) = (s, Some ValueError)"
  by (cases "(e, ds, s, Tuple xs)" rule: loop_item.cases) auto


lemma loop_item_distinct:
  "distinct (map fst (last_runs s)) \<Longrightarrow> distinct (map fst (last_runs (fst (loop_item e ds s i))))"
  by (cases "(e, ds, s, i)" rule: loop_item.cases)
     (auto simp: printf_def AList.distinct_update split: sum.splits)

lemma loop_item_trace:
  "\<exists>es. trace (fst (loop_item e ds s i)) = trace s @ es \<and> (\<forall>T v t. (T, Callback v t) \<notin> set es)"
  by (cases "(e, ds, s, i)" rule: loop_item.cases) (auto simp: printf_def split: sum.splits)

subsection \<open>One iteration\<close>

lemma loop_body_fields:
  "self_last_runs (loop_body e s i) = self_last_runs (fst (loop_try e s i))"
  "last_runs (loop_body e s i) = last_runs (fst (loop_try e s i))"
  "clock (loop_body e s i) = clock (fst (loop_try e s i))"
  "trace (loop_body e s i) = trace (fst (loop_try e s i)) @
      (case snd (loop_try e s i) of None \<Rightarrow> [] | Some x \<Rightarrow> error_lines (clock (fst (loop_try e s i))) x)"
  by (auto simp: loop_body_def printf_def error_lines_def split: prod.splits option.splits)

lemma loop_body_Got_trace:
  "\<exists>es. trace (loop_body e s (Got w i ds)) = trace s @ es \<and> (\<forall>T v t. (T, Callback v t) \<notin> set es)"
proof -
  obtain es where es: "trace (fst (loop_item e ds (s\<lparr>clock := clock s + w\<rparr>) i)) = trace s @ es"
    "\<forall>T v t. (T, Callback v t) \<notin> set es"
    using loop_item_trace [of e ds "s\<lparr>clock := clock s + w\<rparr>" i] by auto
  show ?thesis
    by (rule exI [of _ "es @ (case snd (loop_try e s (Got w i ds)) of None \<Rightarrow> []
          | Some x \<Rightarrow> error_lines (clock (fst (loop_try e s (Got w i ds)))) x)"])
       (use es in \<open>auto simp: loop_body_fields error_lines_def split: option.splits\<close>)
qed

text \<open>The state in which a sweep ends.\<close>

lemma emitted_clock [simp]: "emitted (s\<lparr>clock := c\<rparr>) s' = emitted s s'"
  by (simp add: emitted_def)

lemma loop_body_Empty_trace:
  "trace (loop_body e s (Empty w ds)) =
     trace s @ emitted s (fst (loop_try e s (Empty w ds))) @
       (case snd (loop_try e s (Empty w ds)) of
          None \<Rightarrow> [] | Some x \<Rightarrow> error_lines (clock (fst (loop_try e s (Empty w ds)))) x)"
  using sweep_trace [of e ds "last_runs s" "s\<lparr>clock := clock s + w\<rparr>"]
  by (simp add: loop_body_fields(4))

lemma trace_extends: "\<exists>es. trace (loop_body e s i) = trace s @ es"
proof (cases i)
  case (Got w x ds)
  then show ?thesis using loop_body_Got_trace [of e s w x ds] by auto
next
  case (Empty w ds)
  then show ?thesis using loop_body_Empty_trace [of e s w ds] by auto
qed

lemma emitted_body: "trace (loop_body e s i) = trace s @ emitted s (loop_body e s i)"
  using trace_extends [of e s i] by (auto simp: emitted_def)

lemma trace_loop: "\<exists>es. trace (loop e ins s) = trace s @ es"
proof (induction ins arbitrary: s)
  case Nil
  then show ?case by simp
next
  case (Cons i ins)
  from Cons.IH [of "loop_body e s i"] trace_extends [of e s i]
  show ?case by auto
qed

lemma emitted_loop: "trace (loop e ins s) = trace s @ emitted s (loop e ins s)"
  using trace_loop [of e ins s] by (auto simp: emitted_def)

lemma emitted_Cons:
  "emitted s (loop e (i # ins) s) =
     emitted s (loop_body e s i) @ emitted (loop_body e s i) (loop e ins (loop_body e s i))"
  using emitted_trans [OF emitted_body [of e s i] emitted_loop [of e ins "loop_body e s i"]] by simp

lemma emitted_Got_no_callback: "(T, Callback v t) \<notin> set (emitted s (loop_body e s (Got w i ds)))"
  using loop_body_Got_trace [of e s w i ds] by (auto simp: emitted_def)

lemma emitted_Empty_callback:
  "(T, Callback v t) \<in> set (emitted s (loop_body e s (Empty w ds))) \<longleftrightarrow>
   (T, Callback v t) \<in> set (emitted s (fst (loop_try e s (Empty w ds))))"
proof -
  have "emitted s (loop_body e s (Empty w ds)) =
          emitted s (fst (loop_try e s (Empty w ds))) @
            (case snd (loop_try e s (Empty w ds)) of
               None \<Rightarrow> [] | Some x \<Rightarrow> error_lines (clock (fst (loop_try e s (Empty w ds)))) x)"
    by (rule emitted_append [OF loop_body_Empty_trace])
  then show ?thesis by (auto simp: error_lines_def split: option.splits)
qed

subsection \<open>Invariants of the loop\<close>

lemma loop_body_distinct:
  "distinct (map fst (last_runs s)) \<Longrightarrow> distinct (map fst (last_runs (loop_body e s i)))"
proof (cases i)
  case (Got w x ds)
  assume "distinct (map fst (last_runs s))"
  then show ?thesis
    using Got loop_item_distinct [of "s\<lparr>clock := clock s + w\<rparr>" e ds x] by (simp add: loop_body_fields)
next
  case (Empty w ds)
  assume "distinct (map fst (last_runs s))"
  then show ?thesis
    using Empty sweep_distinct [of "s\<lparr>clock := clock s + w\<rparr>" e ds "last_runs s"]
    by (simp add: loop_body_fields)
qed

lemma loop_distinct:
  "distinct (map fst (last_runs s)) \<Longrightarrow> distinct (map fst (last_runs (loop e ins s)))"
  by (induction ins arbitrary: s) (auto simp: loop_body_distinct)

text \<open>The pending dict has one entry for an id at most, in every state the loop reaches.\<close>

lemma reachable_distinct: "distinct (map fst (last_runs (loop e ins (init t0))))"
  by (rule loop_distinct) (simp add: init_def)



subsection \<open>Timing\<close>

lemma emitted_Empty_stamp:
  assumes "well_timed (Empty w ds)"
    and "(T, Callback v t) \<in> set (emitted s (loop_body e s (Empty w ds)))"
  shows "clock s + w \<le> T" and "T \<le> clock (loop_body e s (Empty w ds))"
proof -
  have n: "list_all (\<lambda>d. 0 \<le> d) ds" using assms(1) by simp
  have ev: "(T, Callback v t) \<in> set (emitted (s\<lparr>clock := clock s + w\<rparr>)
              (fst (loop_sweep e ds (last_runs s) (s\<lparr>clock := clock s + w\<rparr>))))"
    using assms(2) by (simp add: emitted_Empty_callback)
  from sweep_stamps [OF n ev] show "clock s + w \<le> T" by simp
  from sweep_stamp_upper [OF n ev] show "T \<le> clock (loop_body e s (Empty w ds))"
    by (simp add: loop_body_fields)
qed


lemmas run_eval =
  loop_body_def init_def loop_sweep_entry_def monotonic_def reenter_def printf_def
  env_ok_def env_raise_def cb_ok_def cb_raise_def MIN_DELAY_value float_eval

subsection \<open>What a sweep does when it dispatches\<close>

lemma keys_present: "\<forall>k \<in> fst ` set xs. map_of xs k \<noteq> None"
  by (simp add: map_of_eq_None_iff)

text \<open>The callbacks of a sweep, and the pending entries it dispatches.\<close>

lemma Empty_sound:
  assumes "distinct (map fst (last_runs s))" and "well_timed (Empty w ds)"
    and "(T, Callback v t) \<in> set (emitted s (loop_body e s (Empty w ds)))"
  shows "(v, t) \<in> set (last_runs s)" and "\<exists>D. float_add t MIN_DELAY = Inr D \<and> D < T"
    and "clock s + w \<le> T"
    and "self_last_runs (loop_body e s (Empty w ds)) v = Some T"
    and "map_of (last_runs (loop_body e s (Empty w ds))) v = None"
proof -
  let ?s0 = "s\<lparr>clock := clock s + w\<rparr>"
  have n: "list_all (\<lambda>d. 0 \<le> d) ds" using assms(2) by simp
  have d: "distinct (map fst (last_runs s))" using assms(1) .
  have ev: "(T, Callback v t) \<in> set (emitted ?s0 (fst (loop_sweep e ds (last_runs s) ?s0)))"
    using assms(3) by (simp add: emitted_Empty_callback)
  from sweep_sound [OF d ev]
  show "(v, t) \<in> set (last_runs s)"
    and "self_last_runs (loop_body e s (Empty w ds)) v = Some T"
    and "map_of (last_runs (loop_body e s (Empty w ds))) v = None"
    by (simp_all add: loop_body_fields)
  from sweep_due [OF n ev] show "\<exists>D. float_add t MIN_DELAY = Inr D \<and> D < T" .
  from emitted_Empty_stamp(1) [OF assms(2,3)] show "clock s + w \<le> T" .
qed

lemma Empty_complete:
  assumes "distinct (map fst (last_runs s))" and "well_timed (Empty w ds)"
    and "last_runs s = xs @ (v, t) # ys"
    and "float_add t MIN_DELAY = Inr D" and "D < clock s + w"
    and "\<forall>p \<in> set xs. float_add (snd p) MIN_DELAY \<noteq> Inl OverflowError"
    and "\<forall>p \<in> set xs. \<forall>T. (T, Callback (fst p) (snd p)) \<in> set (emitted s (loop_body e s (Empty w ds)))
           \<longrightarrow> callback e (fst p) (snd p) = None"
  shows "\<exists>T. (T, Callback v t) \<in> set (emitted s (loop_body e s (Empty w ds)))"
proof -
  let ?s0 = "s\<lparr>clock := clock s + w\<rparr>"
  have n: "list_all (\<lambda>d. 0 \<le> d) ds" using assms(2) by simp
  have d: "distinct (map fst (xs @ (v, t) # ys))" using assms(1,3) by simp
  have k: "\<forall>k \<in> fst ` set (xs @ [(v, t)]). map_of (last_runs ?s0) k \<noteq> None"
    using keys_present [of "last_runs s"] assms(3) by auto
  have c: "D < clock ?s0" using assms(5) by simp
  have h: "\<forall>p \<in> set xs. \<forall>T. (T, Callback (fst p) (snd p))
             \<in> set (emitted ?s0 (fst (loop_sweep e ds (xs @ (v, t) # ys) ?s0)))
           \<longrightarrow> callback e (fst p) (snd p) = None"
    using assms(7) by (simp add: emitted_Empty_callback assms(3))
  from sweep_complete [OF n d k assms(4) c assms(6) h]
  show ?thesis by (auto simp: emitted_Empty_callback assms(3))
qed

text \<open>
  C4. In a sweep, the callback is called for a pending entry only after the clock has been
  read above its timestamp plus \<open>MIN_DELAY\<close>, and with the call the sweep has done all of:
  read the clock again and store that reading \<open>T\<close> under the id in \<open>self.last_runs\<close>, delete
  the id from the pending dict, call the callback with the timestamp of the request (not
  with \<open>T\<close>). And the sweep does dispatch: a pending entry whose timestamp plus
  \<open>MIN_DELAY\<close> is below the clock when the sweep begins gets its callback called, unless
  the sweep has ended before, by an exception for an entry in front of it.
\<close>

theorem sweep_dispatch_actions:
  assumes "distinct (map fst (last_runs s))" and "well_timed (Empty w ds)"
  shows "(\<forall>T v t. (T, Callback v t) \<in> set (emitted s (loop_body e s (Empty w ds))) \<longrightarrow>
            (v, t) \<in> set (last_runs s)
            \<and> (\<exists>D. float_add t MIN_DELAY = Inr D \<and> D < T)
            \<and> self_last_runs (loop_body e s (Empty w ds)) v = Some T
            \<and> map_of (last_runs (loop_body e s (Empty w ds))) v = None)
       \<and> (\<forall>xs v t ys D.
            last_runs s = xs @ (v, t) # ys \<and> float_add t MIN_DELAY = Inr D \<and> D < clock s + w
            \<and> (\<forall>p \<in> set xs. float_add (snd p) MIN_DELAY \<noteq> Inl OverflowError)
            \<and> (\<forall>p \<in> set xs. \<forall>T. (T, Callback (fst p) (snd p))
                   \<in> set (emitted s (loop_body e s (Empty w ds))) \<longrightarrow> callback e (fst p) (snd p) = None)
            \<longrightarrow> (\<exists>T. (T, Callback v t) \<in> set (emitted s (loop_body e s (Empty w ds)))))"
proof -
  have a: "(v, t) \<in> set (last_runs s)
        \<and> (\<exists>D. float_add t MIN_DELAY = Inr D \<and> D < T)
        \<and> self_last_runs (loop_body e s (Empty w ds)) v = Some T
        \<and> map_of (last_runs (loop_body e s (Empty w ds))) v = None"
    if "(T, Callback v t) \<in> set (emitted s (loop_body e s (Empty w ds)))" for T v t
    using Empty_sound [OF assms that] by simp
  have b: "\<exists>T. (T, Callback v t) \<in> set (emitted s (loop_body e s (Empty w ds)))"
    if "last_runs s = xs @ (v, t) # ys \<and> float_add t MIN_DELAY = Inr D \<and> D < clock s + w
     \<and> (\<forall>p \<in> set xs. float_add (snd p) MIN_DELAY \<noteq> Inl OverflowError)
     \<and> (\<forall>p \<in> set xs. \<forall>T. (T, Callback (fst p) (snd p))
            \<in> set (emitted s (loop_body e s (Empty w ds))) \<longrightarrow> callback e (fst p) (snd p) = None)"
    for xs v t ys D
    using that Empty_complete [OF assms, of xs v t ys D e] by blast
  show ?thesis using a b by blast
qed

theorem sweep_dispatch_actions_witness:
  "distinct (map fst (last_runs \<lparr>self_last_runs = Map.empty, last_runs = [(1, 0), (2, 0)], clock = 0, trace = []\<rparr>))
   \<and> well_timed (Empty 1 [0, 1, 2, 3])
   \<and> float_add 0 MIN_DELAY = Inr MIN_DELAY \<and> MIN_DELAY < 0 + 1
   \<and> callback env_ok 1 0 = None
   \<and> emitted \<lparr>self_last_runs = Map.empty, last_runs = [(1, 0), (2, 0)], clock = 0, trace = []\<rparr>
        (loop_body env_ok \<lparr>self_last_runs = Map.empty, last_runs = [(1, 0), (2, 0)], clock = 0, trace = []\<rparr>
           (Empty 1 [0, 1, 2, 3]))
       = [(2, Callback 1 0), (7, Callback 2 0)]
   \<and> self_last_runs
        (loop_body env_ok \<lparr>self_last_runs = Map.empty, last_runs = [(1, 0), (2, 0)], clock = 0, trace = []\<rparr>
           (Empty 1 [0, 1, 2, 3])) 2 = Some 7
   \<and> map_of (last_runs
        (loop_body env_ok \<lparr>self_last_runs = Map.empty, last_runs = [(1, 0), (2, 0)], clock = 0, trace = []\<rparr>
           (Empty 1 [0, 1, 2, 3]))) 2 = None"
proof -
  let ?S = "\<lparr>self_last_runs = Map.empty, last_runs = [(1, 0), (2, 0)], clock = 0, trace = []\<rparr>"
  let ?R = "loop_body env_ok ?S (Empty 1 [0, 1, 2, 3])"
  have h1: "distinct (map fst (last_runs ?S))" by simp
  have h2: "well_timed (Empty 1 [0, 1, 2, 3])" by (simp add: MIN_DELAY_value)
  have f: "float_add 0 MIN_DELAY = Inr MIN_DELAY" by (simp add: MIN_DELAY_value float_eval)
  have m: "MIN_DELAY < 0 + 1" by (simp add: MIN_DELAY_value)
  have c: "callback env_ok 1 0 = None" by (simp add: env_ok_def cb_ok_def)
  have ev: "emitted ?S ?R = [(2, Callback 1 0), (7, Callback 2 0)]"
    by (simp add: emitted_def run_eval)
  note t = sweep_dispatch_actions [OF h1 h2, of env_ok]
  have "(7, Callback 2 0) \<in> set (emitted ?S ?R)" using ev by simp
  with t have "self_last_runs ?R 2 = Some 7 \<and> map_of (last_runs ?R) 2 = None" by blast
  with h1 h2 f m c ev show ?thesis by blast
qed

subsection \<open>Receipt of a check request\<close>




subsection \<open>Stale requests\<close>

text \<open>
  C3 (as the code has it). A check request whose timestamp is strictly less than the entry
  of its id in \<open>self.last_runs\<close> is dropped at receipt: the iteration changes nothing but
  the clock, so the loop goes on as if the request had never arrived and no callback is
  called for it. A request whose timestamp equals the entry, or is greater, becomes the
  pending request of its id.
\<close>

theorem stale_request_discarded:
  assumes "self_last_runs s view_id = Some r"
  shows "(timestamp < r \<longrightarrow>
            loop_body e s (Got w (Tuple [view_id, timestamp]) ds) = s\<lparr>clock := clock s + w\<rparr>
          \<and> loop e (Got w (Tuple [view_id, timestamp]) ds # ins) s = loop e ins (s\<lparr>clock := clock s + w\<rparr>))
       \<and> (r \<le> timestamp \<longrightarrow>
            map_of (last_runs (loop_body e s (Got w (Tuple [view_id, timestamp]) ds))) view_id = Some timestamp)"
  using assms by (auto simp: loop_body_def dom_def AList.update_conv')

theorem stale_request_discarded_witness:
  "self_last_runs \<lparr>self_last_runs = [1 \<mapsto> 5], last_runs = [], clock = 5, trace = []\<rparr> 1 = Some 5
   \<and> loop_body env_ok \<lparr>self_last_runs = [1 \<mapsto> 5], last_runs = [], clock = 5, trace = []\<rparr>
         (Got 1 (Tuple [1, 4]) [])
       = \<lparr>self_last_runs = [1 \<mapsto> 5], last_runs = [], clock = 6, trace = []\<rparr>
   \<and> map_of (last_runs (loop_body env_ok \<lparr>self_last_runs = [1 \<mapsto> 5], last_runs = [], clock = 5, trace = []\<rparr>
         (Got 1 (Tuple [1, 5]) []))) 1 = Some 5"
proof -
  have h: "self_last_runs \<lparr>self_last_runs = [1 \<mapsto> 5::real], last_runs = [], clock = 5, trace = []\<rparr> (1::real)
             = Some 5"
    by simp
  show ?thesis
    using stale_request_discarded [OF h, of 4 env_ok 1 "[]" "[]"]
      stale_request_discarded [OF h, of 5 env_ok 1 "[]" "[]"]
    by simp
qed

theorem stale_equal_counterexample:
  "self_last_runs (loop env_ok [Got 0 (Tuple [1, 0]) [], Empty 5 []] (init 0)) 1 = Some 5
   \<and> trace (loop env_ok [Got 0 (Tuple [1, 0]) [], Empty 5 [], Got 0 (Tuple [1, 5]) [], Empty 1 []] (init 0))
       = [(5, Callback 1 0), (6, Callback 1 5)]"
  by (simp add: run_eval)

subsection \<open>Which request of an id is dispatched\<close>

lemma only_pending_fires:
  assumes "distinct (map fst (last_runs s))"
    and "(T, Callback v t) \<in> set (emitted s (loop_body e s i))"
  shows "map_of (last_runs s) v = Some t"
proof (cases i)
  case (Got w x ds)
  with assms(2) show ?thesis using emitted_Got_no_callback by simp
next
  case (Empty w ds)
  with assms(2) have "(T, Callback v t) \<in> set (emitted (s\<lparr>clock := clock s + w\<rparr>)
            (fst (loop_sweep e ds (last_runs s) (s\<lparr>clock := clock s + w\<rparr>))))"
    by (simp add: emitted_Empty_callback)
  from sweep_sound [OF assms(1) this] have "(v, t) \<in> set (last_runs s)" by simp
  with assms(1) show ?thesis by simp
qed

lemma pending_kept_or_dropped:
  assumes "\<not> request_for v i"
  shows "map_of (last_runs (loop_body e s i)) v = None
       \<or> map_of (last_runs (loop_body e s i)) v = map_of (last_runs s) v"
proof (cases i)
  case (Got w x ds)
  have "map_of (last_runs (fst (loop_item e ds s' x))) v = map_of (last_runs s') v"
    if "\<not> request_for v (Got w x ds)" for s'
    using that by (cases "(e, ds, s', x)" rule: loop_item.cases)
      (auto simp: printf_def AList.update_conv' split: sum.splits)
  from this [of "s\<lparr>clock := clock s + w\<rparr>"] assms Got show ?thesis
    by (simp add: loop_body_fields)
next
  case (Empty w ds)
  then show ?thesis
    using sweep_pending [of e ds "last_runs s" "s\<lparr>clock := clock s + w\<rparr>" v]
    by (simp add: loop_body_fields)
qed

lemma superseded_run:
  assumes "distinct (map fst (last_runs s))"
    and "map_of (last_runs s) v = None \<or> map_of (last_runs s) v = Some t2"
    and "list_all (\<lambda>i. \<not> request_for v i) ins"
    and "(T, Callback v t) \<in> set (emitted s (loop e ins s))"
  shows "t = t2"
  using assms
proof (induction ins arbitrary: s)
  case Nil
  then show ?case by simp
next
  case (Cons i ins)
  from Cons.prems(4) consider
      (now) "(T, Callback v t) \<in> set (emitted s (loop_body e s i))"
    | (later) "(T, Callback v t) \<in> set (emitted (loop_body e s i) (loop e ins (loop_body e s i)))"
    unfolding emitted_Cons by auto
  then show ?case
  proof cases
    case now
    from only_pending_fires [OF Cons.prems(1) now] Cons.prems(2) show ?thesis by simp
  next
    case later
    have d: "distinct (map fst (last_runs (loop_body e s i)))"
      using Cons.prems(1) by (rule loop_body_distinct)
    have "\<not> request_for v i" using Cons.prems(3) by simp
    from pending_kept_or_dropped [OF this, of e s] Cons.prems(2)
    have p: "map_of (last_runs (loop_body e s i)) v = None
           \<or> map_of (last_runs (loop_body e s i)) v = Some t2"
      by auto
    from Cons.prems(3) have r: "list_all (\<lambda>i. \<not> request_for v i) ins" by simp
    from Cons.IH [OF d p r later] show ?thesis .
  qed
qed

text \<open>
  C1 (as the code has it). A check request that is not stale replaces the pending request
  of its id, whatever the timestamp of the one it replaces: nothing is printed and no
  callback is called at that moment, and until another request for the id arrives every
  callback for the id carries the timestamp of this last request. So of \<open>(id, t1)\<close>
  followed by \<open>(id, t2)\<close> only \<open>t2\<close> is dispatched, also when \<open>t2 < t1\<close>.
\<close>

theorem last_request_wins:
  assumes "distinct (map fst (last_runs s))"
    and "\<not> (view_id \<in> dom (self_last_runs s) \<and> t2 < the (self_last_runs s view_id))"
    and "list_all (\<lambda>i. \<not> request_for view_id i) ins"
  shows "emitted s (loop_body e s (Got w (Tuple [view_id, t2]) ds)) = []
       \<and> map_of (last_runs (loop_body e s (Got w (Tuple [view_id, t2]) ds))) view_id = Some t2
       \<and> (\<forall>T t. (T, Callback view_id t) \<in> set (emitted (loop_body e s (Got w (Tuple [view_id, t2]) ds))
                    (loop e ins (loop_body e s (Got w (Tuple [view_id, t2]) ds))))
             \<longrightarrow> t = t2)"
proof -
  let ?s1 = "loop_body e s (Got w (Tuple [view_id, t2]) ds)"
  have d: "distinct (map fst (last_runs ?s1))"
    using assms(1) by (rule loop_body_distinct)
  have p: "map_of (last_runs ?s1) view_id = Some t2"
    using assms(2) by (auto simp: loop_body_def AList.update_conv')
  have ev: "emitted s ?s1 = []"
    by (simp add: emitted_def loop_body_def)
  have "t = t2" if "(T, Callback view_id t) \<in> set (emitted ?s1 (loop e ins ?s1))" for T t
    using superseded_run [OF d _ assms(3) that] p by simp
  with p ev show ?thesis by blast
qed

theorem last_request_wins_witness:
  "distinct (map fst (last_runs \<lparr>self_last_runs = Map.empty, last_runs = [(1, 5)], clock = 0, trace = []\<rparr>))
   \<and> \<not> (1 \<in> dom (self_last_runs \<lparr>self_last_runs = Map.empty, last_runs = [(1, 5)], clock = 0, trace = []\<rparr>)
        \<and> 3 < the (self_last_runs \<lparr>self_last_runs = Map.empty, last_runs = [(1, 5)], clock = 0, trace = []\<rparr> 1))
   \<and> list_all (\<lambda>i. \<not> request_for 1 i) [Got 0 (Tuple [2, 7]) [], Empty 10 []]
   \<and> emitted
         (loop_body env_ok \<lparr>self_last_runs = Map.empty, last_runs = [(1, 5)], clock = 0, trace = []\<rparr>
            (Got 0 (Tuple [1, 3]) []))
         (loop env_ok [Got 0 (Tuple [2, 7]) [], Empty 10 []]
            (loop_body env_ok \<lparr>self_last_runs = Map.empty, last_runs = [(1, 5)], clock = 0, trace = []\<rparr>
               (Got 0 (Tuple [1, 3]) [])))
       = [(10, Callback 1 3), (10, Callback 2 7)]
   \<and> map_of (last_runs (loop_body env_ok
         \<lparr>self_last_runs = Map.empty, last_runs = [(1, 5)], clock = 0, trace = []\<rparr> (Got 0 (Tuple [1, 3]) []))) 1
       = Some 3"
proof -
  let ?S = "\<lparr>self_last_runs = Map.empty, last_runs = [(1, 5)], clock = 0, trace = []\<rparr>"
  have h1: "distinct (map fst (last_runs ?S))" by simp
  have h2: "\<not> (1 \<in> dom (self_last_runs ?S) \<and> 3 < the (self_last_runs ?S 1))" by simp
  have h3: "list_all (\<lambda>i. \<not> request_for 1 i) [Got 0 (Tuple [2, 7]) [], Empty 10 []]" by simp
  have h4: "emitted (loop_body env_ok ?S (Got 0 (Tuple [1, 3]) []))
         (loop env_ok [Got 0 (Tuple [2, 7]) [], Empty 10 []] (loop_body env_ok ?S (Got 0 (Tuple [1, 3]) [])))
       = [(10, Callback 1 3), (10, Callback 2 7)]"
    by (simp add: emitted_def run_eval)
  from last_request_wins [OF h1 h2 h3, of env_ok 0 "[]"]
  have "map_of (last_runs (loop_body env_ok ?S (Got 0 (Tuple [1, 3]) []))) 1 = Some 3" by blast
  with h1 h2 h3 h4 show ?thesis by blast
qed

theorem greatest_timestamp_counterexample:
  "trace (loop env_ok [Got 0 (Tuple [1, 5]) [], Got 0 (Tuple [1, 3]) [], Empty 10 []] (init 0))
     = [(10, Callback 1 3)]"
  by (simp add: run_eval)

subsection \<open>When a pending request is dispatched\<close>




subsection \<open>Delay instructions\<close>




subsection \<open>Exceptions\<close>

text \<open>
  C8. When the body of the \<open>try\<close> raises, whatever the input of the iteration, the bare
  \<open>except\<close> prints four lines (the header, a line of twenty dashes, the traceback, a line
  of twenty dashes) after whatever the body had done, and the loop goes on with the next
  input. A tuple that is not a pair, a negative number and a number that \<open>time.sleep\<close>
  does not accept are messages whose processing raises; they leave the pending dict and
  \<open>self.last_runs\<close> as they are.
\<close>

theorem exception_is_logged:
  "(loop_try e s i = (s', Some x) \<longrightarrow>
      loop_body e s i = s'\<lparr>trace := trace s' @
          [(clock s', Printf [Text ''error in SublimeLinter daemon:'']),
           (clock s', Printf [Text (replicate 20 CHR ''-'')]),
           (clock s', Printf [Traceback x]),
           (clock s', Printf [Text (replicate 20 CHR ''-'')])]\<rparr>
      \<and> loop e (i # ins) s = loop e ins (loop_body e s i))
   \<and> (length xs \<noteq> 2 \<longrightarrow> loop_try e s (Got w (Tuple xs) ds) = (s\<lparr>clock := clock s + w\<rparr>, Some ValueError))
   \<and> (to_float n = Inr d \<and> d < 0 \<longrightarrow>
        loop_try e s (Got w (Number n) ds) = (s\<lparr>clock := clock s + w\<rparr>, Some ValueError))
   \<and> (to_float n = Inr d \<and> 0 \<le> d \<and> sleep_max e < d \<longrightarrow>
        loop_try e s (Got w (Number n) ds) = (s\<lparr>clock := clock s + w\<rparr>, Some OverflowError))
   \<and> (to_float n = Inl OverflowError \<longrightarrow>
        loop_try e s (Got w (Number n) ds) = (s\<lparr>clock := clock s + w\<rparr>, Some OverflowError))"
  by (auto simp: loop_body_def printf_def tuple_shape)

theorem exception_is_logged_witness:
  "loop_try env_ok \<lparr>self_last_runs = Map.empty, last_runs = [], clock = 0, trace = []\<rparr> (Got 1 (Tuple [1, 2, 3]) [])
     = (\<lparr>self_last_runs = Map.empty, last_runs = [], clock = 1, trace = []\<rparr>, Some ValueError)
   \<and> loop_body env_ok \<lparr>self_last_runs = Map.empty, last_runs = [], clock = 0, trace = []\<rparr> (Got 1 (Tuple [1, 2, 3]) [])
     = \<lparr>self_last_runs = Map.empty, last_runs = [], clock = 1,
        trace = [(1, Printf [Text ''error in SublimeLinter daemon:'']),
                 (1, Printf [Text (replicate 20 CHR ''-'')]),
                 (1, Printf [Traceback ValueError]),
                 (1, Printf [Text (replicate 20 CHR ''-'')])]\<rparr>
   \<and> emitted (loop_body env_ok \<lparr>self_last_runs = Map.empty, last_runs = [], clock = 0, trace = []\<rparr>
                 (Got 1 (Tuple [1, 2, 3]) []))
        (loop env_ok [Got 1 (Tuple [1, 2, 3]) [], Got 0 (Tuple [1, 1]) [], Empty 1 []]
           \<lparr>self_last_runs = Map.empty, last_runs = [], clock = 0, trace = []\<rparr>)
     = [(2, Callback 1 1)]
   \<and> to_float (- 1) = Inr (- 1)
   \<and> loop_try env_ok \<lparr>self_last_runs = Map.empty, last_runs = [], clock = 0, trace = []\<rparr> (Got 1 (Number (- 1)) [])
     = (\<lparr>self_last_runs = Map.empty, last_runs = [], clock = 1, trace = []\<rparr>, Some ValueError)
   \<and> loop_body env_raise \<lparr>self_last_runs = Map.empty, last_runs = [(1, 0), (2, 0)], clock = 0, trace = []\<rparr>
        (Empty 1 [])
     = \<lparr>self_last_runs = [1 \<mapsto> 1], last_runs = [(2, 0)], clock = 1,
        trace = [(1, Callback 1 0),
                 (1, Printf [Text ''error in SublimeLinter daemon:'']),
                 (1, Printf [Text (replicate 20 CHR ''-'')]),
                 (1, Printf [Traceback (CallbackError ''boom'')]),
                 (1, Printf [Text (replicate 20 CHR ''-'')])]\<rparr>"
proof -
  let ?S = "\<lparr>self_last_runs = Map.empty, last_runs = [], clock = 0, trace = []\<rparr>"
  let ?S' = "\<lparr>self_last_runs = Map.empty, last_runs = [], clock = 1, trace = []\<rparr>"
  let ?P = "\<lparr>self_last_runs = Map.empty, last_runs = [(1, 0), (2, 0)], clock = 0, trace = []\<rparr>"
  let ?P' = "\<lparr>self_last_runs = [1 \<mapsto> 1], last_runs = [(2, 0)], clock = 1, trace = [(1, Callback 1 0)]\<rparr>"
  have h: "loop_try env_ok ?S (Got 1 (Tuple [1, 2, 3]) []) = (?S', Some ValueError)"
    by simp
  have f: "to_float (- 1) = Inr (- 1)" by (simp add: float_eval)
  note t = exception_is_logged [of env_ok ?S "Got 1 (Tuple [1, 2, 3]) []" ?S' ValueError
        "[Got 0 (Tuple [1, 1]) [], Empty 1 []]" "[1, 2, 3]" 1 "[]" "- 1" "- 1"]
  have a: "loop_body env_ok ?S (Got 1 (Tuple [1, 2, 3]) [])
     = \<lparr>self_last_runs = Map.empty, last_runs = [], clock = 1,
        trace = [(1, Printf [Text ''error in SublimeLinter daemon:'']),
                 (1, Printf [Text (replicate 20 CHR ''-'')]),
                 (1, Printf [Traceback ValueError]),
                 (1, Printf [Text (replicate 20 CHR ''-'')])]\<rparr>"
    using t h by simp
  have l: "loop env_ok [Got 1 (Tuple [1, 2, 3]) [], Got 0 (Tuple [1, 1]) [], Empty 1 []] ?S
         = loop env_ok [Got 0 (Tuple [1, 1]) [], Empty 1 []] (loop_body env_ok ?S (Got 1 (Tuple [1, 2, 3]) []))"
    using t h by blast
  have b: "emitted (loop_body env_ok ?S (Got 1 (Tuple [1, 2, 3]) []))
        (loop env_ok [Got 1 (Tuple [1, 2, 3]) [], Got 0 (Tuple [1, 1]) [], Empty 1 []] ?S) = [(2, Callback 1 1)]"
    unfolding l a by (simp add: emitted_def run_eval)
  have n: "loop_try env_ok ?S (Got 1 (Number (- 1)) []) = (?S', Some ValueError)"
    using t f by simp
  have g: "loop_try env_raise ?P (Empty 1 []) = (?P', Some (CallbackError ''boom''))"
    by (simp add: run_eval)
  note u = exception_is_logged [of env_raise ?P "Empty 1 []" ?P' "CallbackError ''boom''" "[]" "[]" 0 "[]" 0 0]
  have c: "loop_body env_raise ?P (Empty 1 [])
     = \<lparr>self_last_runs = [1 \<mapsto> 1], last_runs = [(2, 0)], clock = 1,
        trace = [(1, Callback 1 0),
                 (1, Printf [Text ''error in SublimeLinter daemon:'']),
                 (1, Printf [Text (replicate 20 CHR ''-'')]),
                 (1, Printf [Traceback (CallbackError ''boom'')]),
                 (1, Printf [Text (replicate 20 CHR ''-'')])]\<rparr>"
    using u g by simp
  show ?thesis using h a b f n c by blast
qed

subsection \<open>Unknown messages\<close>

text \<open>
  C9 (as the code has it). A message that is neither a tuple nor a number nor a string is
  printed by \<open>printf\<close> after the words \<open>unknown message sent to daemon:\<close>. A tuple that is
  not a pair raises when it is unpacked, and is reported by the four lines of the bare
  \<open>except\<close> instead. Neither changes the pending dict or \<open>self.last_runs\<close>, and the loop goes on
  with the next input.
\<close>

theorem unknown_message:
  "loop_body e s (Got w (Other x) ds) =
     s\<lparr>clock := clock s + w,
       trace := trace s @ [(clock s + w, Printf [Text ''unknown message sent to daemon:'', Repr (Other x)])]\<rparr>
   \<and> (length xs \<noteq> 2 \<longrightarrow>
        loop_body e s (Got w (Tuple xs) ds) =
          s\<lparr>clock := clock s + w,
            trace := trace s @
              [(clock s + w, Printf [Text ''error in SublimeLinter daemon:'']),
               (clock s + w, Printf [Text (replicate 20 CHR ''-'')]),
               (clock s + w, Printf [Traceback ValueError]),
               (clock s + w, Printf [Text (replicate 20 CHR ''-'')])]\<rparr>)
   \<and> loop e (Got w (Other x) ds # ins) s = loop e ins (loop_body e s (Got w (Other x) ds))
   \<and> loop e (Got w (Tuple xs) ds # ins) s = loop e ins (loop_body e s (Got w (Tuple xs) ds))"
  by (simp add: loop_body_def printf_def tuple_shape)

theorem unknown_message_witness:
  "length [1, 2, 3 :: real] \<noteq> 2
   \<and> loop_body env_ok \<lparr>self_last_runs = Map.empty, last_runs = [(1, 0)], clock = 0, trace = []\<rparr>
        (Got 1 (Other ''None'') [])
       = \<lparr>self_last_runs = Map.empty, last_runs = [(1, 0)], clock = 1,
          trace = [(1, Printf [Text ''unknown message sent to daemon:'', Repr (Other ''None'')])]\<rparr>
   \<and> loop_body env_ok \<lparr>self_last_runs = Map.empty, last_runs = [(1, 0)], clock = 0, trace = []\<rparr>
        (Got 1 (Tuple [1, 2, 3]) [])
       = \<lparr>self_last_runs = Map.empty, last_runs = [(1, 0)], clock = 1,
          trace = [(1, Printf [Text ''error in SublimeLinter daemon:'']),
                   (1, Printf [Text (replicate 20 CHR ''-'')]),
                   (1, Printf [Traceback ValueError]),
                   (1, Printf [Text (replicate 20 CHR ''-'')])]\<rparr>"
proof -
  have h: "length [1, 2, 3 :: real] \<noteq> 2" by simp
  show ?thesis
    using h unknown_message [of env_ok "\<lparr>self_last_runs = Map.empty, last_runs = [(1, 0)], clock = 0, trace = []\<rparr>"
        1 "''None''" "[]" "[1, 2, 3]" "[]"]
    by simp
qed

theorem unknown_string_counterexample:
  "trace (loop_body env_ok (init 0) (Got 0 (Str ''foo'') [])) = []
   \<and> trace (loop_body env_ok (init 0) (Got 0 (Tuple [1, 2, 3]) [])) =
       [(0, Printf [Text ''error in SublimeLinter daemon:'']),
        (0, Printf [Text (replicate 20 CHR ''-'')]),
        (0, Printf [Traceback ValueError]),
        (0, Printf [Text (replicate 20 CHR ''-'')])]"
  by (simp add: loop_body_def init_def printf_def)

subsection \<open>Starting the daemon\<close>

lemma start_running:
  "get_running w self \<Longrightarrow>
   get_running (start self cb w) self \<and> threads (start self cb w) = threads w
   \<and> Daemon_q (start self cb w) = Daemon_q w @ [Str ''reload'']"
  by (simp add: start_def Let_def get_running_def split: option.splits)

lemma starts_running:
  "get_running w self \<Longrightarrow>
   threads (starts self cbs w) = threads w
   \<and> Daemon_q (starts self cbs w) = Daemon_q w @ replicate (length cbs) (Str ''reload'')"
proof (induction cbs arbitrary: w)
  case Nil
  then show ?case by simp
next
  case (Cons cb cbs)
  from start_running [OF Cons.prems, of cb] Cons.IH [of "start self cb w"]
  show ?case by (simp add: replicate_append_same)
qed

text \<open>
  C7 (as the code has it). \<open>start\<close> stores the callback where \<open>self.callback\<close> finds it. On a
  daemon object that is not running it sets \<open>self.running\<close> on that object and starts one
  thread, and puts nothing on the queue; on a running daemon object it starts no thread and
  puts \<open>reload\<close> on the queue. So any number of calls of \<open>start\<close> on one daemon object, from
  the initial state, starts one thread in all, and every call after the first puts one
  \<open>reload\<close> on the queue. The bound is per daemon object, not per process.
\<close>

theorem start_once:
  "get_callback (start self cb w) self = Some cb
   \<and> (\<not> get_running w self \<longrightarrow>
        get_running (start self cb w) self \<and> threads (start self cb w) = threads w @ [self]
        \<and> Daemon_q (start self cb w) = Daemon_q w)
   \<and> (get_running w self \<longrightarrow>
        get_running (start self cb w) self \<and> threads (start self cb w) = threads w
        \<and> Daemon_q (start self cb w) = Daemon_q w @ [Str ''reload''])
   \<and> threads (starts self (cb # cbs) world0) = [self]
   \<and> Daemon_q (starts self (cb # cbs) world0) = replicate (length cbs) (Str ''reload'')"
proof -
  have r: "get_running (start self cb world0) self"
    by (simp add: start_def Let_def get_running_def world0_def split: option.splits)
  have "threads (start self cb world0) = [self]" and "Daemon_q (start self cb world0) = []"
    by (simp_all add: start_def Let_def get_running_def world0_def split: option.splits)
  with starts_running [OF r, of cbs]
  have "threads (starts self (cb # cbs) world0) = [self]"
    and "Daemon_q (starts self (cb # cbs) world0) = replicate (length cbs) (Str ''reload'')"
    by simp_all
  moreover have "get_callback (start self cb w) self = Some cb"
    by (simp add: start_def Let_def get_callback_def split: option.splits)
  moreover have "\<not> get_running w self \<longrightarrow>
        get_running (start self cb w) self \<and> threads (start self cb w) = threads w @ [self]
        \<and> Daemon_q (start self cb w) = Daemon_q w"
    by (simp add: start_def Let_def get_running_def split: option.splits)
  ultimately show ?thesis using start_running [of w self cb] by blast
qed

theorem start_once_witness:
  "\<not> get_running (world0 :: callback world) 0
   \<and> get_running (start 0 cb_ok world0) 0
   \<and> threads (start 0 cb_ok world0) = [0]
   \<and> threads (start 0 cb_raise (start 0 cb_ok world0)) = [0]
   \<and> Daemon_q (start 0 cb_raise (start 0 cb_ok world0)) = [Str ''reload'']
   \<and> get_callback (start 0 cb_raise (start 0 cb_ok world0)) 0 = Some cb_raise"
proof -
  have h: "\<not> get_running (world0 :: callback world) 0"
    by (simp add: get_running_def world0_def)
  note t1 = start_once [of 0 cb_ok "world0 :: callback world" "[]"]
  have r: "get_running (start 0 cb_ok world0) 0" and th: "threads (start 0 cb_ok world0) = [0]"
    and q: "Daemon_q (start 0 cb_ok (world0 :: callback world)) = []"
    using t1 h by (simp_all add: world0_def)
  note t2 = start_once [of 0 cb_raise "start 0 cb_ok world0" "[]"]
  have "threads (start 0 cb_raise (start 0 cb_ok world0)) = [0]"
    and "Daemon_q (start 0 cb_raise (start 0 cb_ok world0)) = [Str ''reload'']"
    and "get_callback (start 0 cb_raise (start 0 cb_ok world0)) 0 = Some cb_raise"
    using t2 r th q by simp_all
  with h r th show ?thesis by blast
qed

theorem two_threads_counterexample:
  "threads (start 0 cb_ok (start 1 cb_raise (start 0 cb_ok world0))) = [0, 1]
   \<and> Daemon_q (start 0 cb_ok (start 1 cb_raise (start 0 cb_ok world0))) = [Str ''reload'']
   \<and> length (threads (start 1 cb_raise (start 0 cb_ok world0))) = 2"
  by (simp add: start_def Let_def get_running_def world0_def)

subsection \<open>Several daemon objects\<close>

text \<open>
  C10 (as the code has it). The queue and \<open>last_runs\<close> are attributes of the class that no
  method assigns: \<open>hit\<close> and \<open>delay\<close> on any daemon object put their item on the one queue,
  and \<open>start\<close> leaves \<open>last_runs\<close> alone. \<open>start\<close> assigns \<open>self.callback\<close> and \<open>self.running\<close>,
  which sets them on the object it is called on: the attributes of the class, and what
  every other object reads as its callback and its running flag, stay as they were.
\<close>

theorem shared_class_attributes:
  "hit a now view w = hit b now view w
   \<and> Daemon_q (snd (hit a now view w)) = Daemon_q w @ [Tuple [view, now]]
   \<and> delay a ms w = delay b ms w
   \<and> Daemon_running (start a cb w) = Daemon_running w
   \<and> Daemon_callback (start a cb w) = Daemon_callback w
   \<and> Daemon_last_runs (start a cb w) = Daemon_last_runs w
   \<and> (a \<noteq> b \<longrightarrow> get_running (start a cb w) b = get_running w b
                \<and> get_callback (start a cb w) b = get_callback w b)"
  by (auto simp: hit_def delay_def start_def Let_def get_running_def get_callback_def split: option.splits)

theorem shared_class_attributes_witness:
  "(0::nat) \<noteq> 1
   \<and> hit 0 2 7 (world0 :: callback world) = hit 1 2 7 world0
   \<and> Daemon_q (snd (hit 1 2 7 (world0 :: callback world))) = [Tuple [7, 2]]
   \<and> get_running (start 0 cb_ok world0) 0
   \<and> \<not> get_running (start 0 cb_ok world0) 1
   \<and> get_callback (start 0 cb_ok world0) 1 = None"
proof -
  have h: "(0::nat) \<noteq> 1" by simp
  note t = shared_class_attributes [of 0 2 7 "world0 :: callback world" 1 500 cb_ok]
  note u = shared_class_attributes [of 1 2 7 "world0 :: callback world" 0 500 cb_ok]
  have r0: "\<not> get_running (world0 :: callback world) 1" and c0: "get_callback (world0 :: callback world) 1 = None"
    and q0: "Daemon_q (world0 :: callback world) = []"
    by (simp_all add: get_running_def get_callback_def world0_def)
  have r1: "get_running (start 0 cb_ok (world0 :: callback world)) 0"
    by (simp add: start_def Let_def get_running_def world0_def)
  have "\<not> get_running (start 0 cb_ok world0) 1" and "get_callback (start 0 cb_ok world0) 1 = None"
    using t h r0 c0 by simp_all
  moreover have "hit 0 2 7 (world0 :: callback world) = hit 1 2 7 world0" using t by blast
  moreover have "Daemon_q (snd (hit 1 2 7 (world0 :: callback world))) = Daemon_q (world0 :: callback world) @ [Tuple [7, 2]]"
    using u by blast
  then have "Daemon_q (snd (hit 1 2 7 (world0 :: callback world))) = [Tuple [7, 2]]"
    by (simp only: q0 append_Nil)
  ultimately show ?thesis using h r1 by blast
qed

theorem second_instance_counterexample:
  "threads (start 1 cb_raise (start 0 cb_ok world0)) = [0, 1]
   \<and> Daemon_q (start 1 cb_raise (start 0 cb_ok world0)) = []
   \<and> get_running (start 0 cb_ok (world0 :: callback world)) 0
   \<and> \<not> get_running (start 0 cb_ok (world0 :: callback world)) 1"
  by (simp add: start_def Let_def get_running_def world0_def split: option.splits)

end
